theory Spec2Isabelle
  imports Main "HOL-Library.Char_ord" "HOL-Library.Sublist"
begin

section \<open>The trie of \<^verbatim>\<open>src/dsa/trie.h\<close>\<close>

subsection \<open>Nodes\<close>

text \<open>
  \<^verbatim>\<open>struct Node { std::optional<V> value; std::map<E, std::unique_ptr<Node>> children; }\<close>.
  A node owns its children through \<^verbatim>\<open>unique_ptr\<close>, so the node graph is a tree and a node
  is modelled by the tree below it. The \<^verbatim>\<open>std::map\<close> is an association list in iteration
  order; the field \<^verbatim>\<open>value\<close> is called \<open>val\<close> here.
  A \<^verbatim>\<open>Trie\<close> owns exactly its \<^verbatim>\<open>root_\<close> node and is modelled by that node.
\<close>

datatype ('e, 'v) node = Node (val: "'v option") (children: "('e \<times> ('e, 'v) node) list")

type_synonym ('e, 'v) trie = "('e, 'v) node"

subsection \<open>The operations of \<^verbatim>\<open>std::map\<close> that the trie uses\<close>

text \<open>\<^verbatim>\<open>children.find(c)\<close> is \<^term>\<open>map_of kids c\<close>: the entry with key \<open>c\<close>, if any.\<close>

text \<open>Assignment through a reference or iterator to the entry of \<open>c\<close> (\<^verbatim>\<open>it->second\<close>):
  the entry stays where it is.\<close>

fun map_set :: "'e \<Rightarrow> 'a \<Rightarrow> ('e \<times> 'a) list \<Rightarrow> ('e \<times> 'a) list" where
  "map_set c x [] = []"
| "map_set c x ((k, y) # kids) =
     (if k = c then (k, x) # kids else (k, y) # map_set c x kids)"

text \<open>Insertion of a key that the map does not hold, at its place in the key order.\<close>

fun map_insert :: "'e::linorder \<Rightarrow> 'a \<Rightarrow> ('e \<times> 'a) list \<Rightarrow> ('e \<times> 'a) list" where
  "map_insert c x [] = [(c, x)]"
| "map_insert c x ((k, y) # kids) =
     (if c < k then (c, x) # (k, y) # kids else (k, y) # map_insert c x kids)"

text \<open>\<^verbatim>\<open>children[c] = x\<close>: \<^verbatim>\<open>operator[]\<close> finds the entry of \<open>c\<close> or inserts one.\<close>

definition map_put :: "'e::linorder \<Rightarrow> 'a \<Rightarrow> ('e \<times> 'a) list \<Rightarrow> ('e \<times> 'a) list" where
  "map_put c x kids =
     (case map_of kids c of
        Some _ \<Rightarrow> map_set c x kids
      | None \<Rightarrow> map_insert c x kids)"

text \<open>\<^verbatim>\<open>children.erase(it)\<close> for the iterator that \<^verbatim>\<open>find(c)\<close> returned. A \<^verbatim>\<open>std::map\<close>
  holds one entry for a key at most, so this leaves no entry with key \<open>c\<close>.\<close>

definition map_erase :: "'e \<Rightarrow> ('e \<times> 'a) list \<Rightarrow> ('e \<times> 'a) list" where
  "map_erase c kids = filter (\<lambda>(k, _). k \<noteq> c) kids"

subsection \<open>Construction, insertion and the queries\<close>

text \<open>\<^verbatim>\<open>Trie() : root_(std::make_unique<Node>())\<close>.\<close>

definition Trie :: "('e, 'v) trie" where
  "Trie = Node None []"

text \<open>
  \<^verbatim>\<open>insert\<close> walks the key from the root; \<^verbatim>\<open>curr->children[c]\<close> makes the entry when it is
  missing and the fresh child is an empty node. The value is stored at the node where the
  walk ends. The loop over the key is the recursion over the list of symbols.
\<close>

fun insert_trie :: "('e::linorder, 'v) trie \<Rightarrow> 'e list \<Rightarrow> 'v \<Rightarrow> ('e, 'v) trie" where
  "insert_trie (Node x kids) [] v = Node (Some v) kids"
| "insert_trie (Node x kids) (c # cs) v =
     Node x (map_put c
       (insert_trie (case map_of kids c of None \<Rightarrow> Node None [] | Some child \<Rightarrow> child) cs v)
       kids)"

fun prefix_trie :: "('e, 'v) trie \<Rightarrow> 'e list \<Rightarrow> bool" where
  "prefix_trie (Node x kids) [] = True"
| "prefix_trie (Node x kids) (c # cs) =
     (case map_of kids c of
        Some child \<Rightarrow> prefix_trie child cs
      | None \<Rightarrow> False)"

fun match :: "('e, 'v) trie \<Rightarrow> 'e list \<Rightarrow> bool" where
  "match (Node x kids) [] = (x \<noteq> None)"
| "match (Node x kids) (c # cs) =
     (case map_of kids c of
        Some child \<Rightarrow> match child cs
      | None \<Rightarrow> False)"

text \<open>\<^verbatim>\<open>get\<close> returns a pointer to the stored value or \<^verbatim>\<open>nullptr\<close>: here the value or \<open>None\<close>.\<close>

fun get :: "('e, 'v) trie \<Rightarrow> 'e list \<Rightarrow> 'v option" where
  "get (Node x kids) [] = x"
| "get (Node x kids) (c # cs) =
     (case map_of kids c of
        Some child \<Rightarrow> get child cs
      | None \<Rightarrow> None)"

subsection \<open>Indexed access\<close>

text \<open>
  \<^verbatim>\<open>operator[]\<close> walks the key as \<^verbatim>\<open>insert\<close> does, making the nodes that are missing,
  and returns \<^verbatim>\<open>*curr->value\<close> without storing anything. The result is the trie after the
  walk and the content of the slot the returned reference points to: \<open>None\<close> when the
  \<^verbatim>\<open>std::optional\<close> is empty, where the dereference has no defined behaviour.
\<close>

fun subscript :: "('e::linorder, 'v) trie \<Rightarrow> 'e list \<Rightarrow> ('e, 'v) trie \<times> 'v option" where
  "subscript (Node x kids) [] = (Node x kids, x)"
| "subscript (Node x kids) (c # cs) =
     (let (child', slot) =
        subscript (case map_of kids c of None \<Rightarrow> Node None [] | Some child \<Rightarrow> child) cs
      in (Node x (map_put c child' kids), slot))"

subsection \<open>Erasure\<close>

text \<open>
  The recursive lambda \<^verbatim>\<open>remove\<close> of \<^verbatim>\<open>erase\<close>. It returns whether a value was removed,
  with the node as the call leaves it. The recursive call works on the child in place
  (\<^verbatim>\<open>it->second.get()\<close>); the parent then drops the entry when a value was removed below
  and the child has neither a value nor children left.
\<close>

fun remove :: "('e, 'v) node \<Rightarrow> 'e list \<Rightarrow> bool \<times> ('e, 'v) node" where
  "remove (Node x kids) [] =
     (if x = None then (False, Node x kids) else (True, Node None kids))"
| "remove (Node x kids) (c # cs) =
     (case map_of kids c of
        None \<Rightarrow> (False, Node x kids)
      | Some child \<Rightarrow>
          (let (removed, child') = remove child cs in
           if removed \<and> val child' = None \<and> children child' = []
           then (removed, Node x (map_erase c kids))
           else (removed, Node x (map_set c child' kids))))"

definition erase :: "('e, 'v) trie \<Rightarrow> 'e list \<Rightarrow> bool \<times> ('e, 'v) trie" where
  "erase t key = remove t key"

subsection \<open>Copying\<close>

text \<open>
  \<^verbatim>\<open>clone\<close> copies the value of a node and fills the children of the copy with
  \<^verbatim>\<open>copy->children[c] = CloneNode(child.get())\<close>. No file of the repository declares
  \<^verbatim>\<open>CloneNode\<close>, so it is a parameter here. The null check of \<^verbatim>\<open>clone\<close> is for a pointer
  that owns nothing, which no node of a trie holds.
\<close>

definition clone ::
  "(('e::linorder, 'v) node \<Rightarrow> ('e, 'v) node) \<Rightarrow> ('e, 'v) node \<Rightarrow> ('e, 'v) node" where
  "clone CloneNode node =
     Node (val node)
       (fold (\<lambda>(c, child) copy. map_put c (CloneNode child) copy) (children node) [])"

text \<open>
  \<^verbatim>\<open>operator=\<close>: \<^verbatim>\<open>if (this != &other) root_ = clone(other.root_.get())\<close>. \<open>self\<close> says
  whether \<^verbatim>\<open>other\<close> is the object assigned to, \<open>target\<close>. The copy constructor,
  \<^verbatim>\<open>root_(clone(other))\<close>, hands the trie itself to \<^verbatim>\<open>clone\<close>, which takes a pointer to a
  node; there is no conversion between the two, so the call has no meaning to embed.
\<close>

definition copy_assign ::
  "(('e::linorder, 'v) node \<Rightarrow> ('e, 'v) node) \<Rightarrow> bool \<Rightarrow> ('e, 'v) trie \<Rightarrow> ('e, 'v) trie
     \<Rightarrow> ('e, 'v) trie" where
  "copy_assign CloneNode self target other =
     (if \<not> self then clone CloneNode other else target)"

subsection \<open>Rendering\<close>

text \<open>\<^verbatim>\<open>lines.back().append(s)\<close>; every call in \<^verbatim>\<open>to_string\<close> follows an \<^verbatim>\<open>emplace_back\<close>, so
  the vector is never empty there.\<close>

fun append_back :: "string list \<Rightarrow> string \<Rightarrow> string list" where
  "append_back [] s = []"
| "append_back [l] s = [l @ s]"
| "append_back (l # ls) s = l # append_back ls s"

text \<open>\<^verbatim>\<open>lines.back().size()\<close>.\<close>

fun back_size :: "string list \<Rightarrow> nat" where
  "back_size [] = 0"
| "back_size [l] = length l"
| "back_size (l # ls) = back_size ls"

text \<open>\<^verbatim>\<open>std::string prefix(anchor, ' ')\<close> with a bar written at every column of \<^verbatim>\<open>relatives\<close>
  that is less than \<^verbatim>\<open>anchor\<close>.\<close>

definition bar_prefix :: "nat \<Rightarrow> nat list \<Rightarrow> string" where
  "bar_prefix anchor relatives =
     fold (\<lambda>bar p. if bar < anchor then p[bar := CHR ''|''] else p)
       relatives (replicate anchor CHR '' '')"

text \<open>
  The recursive lambda \<^verbatim>\<open>partial\<close> and its loop over the children. \<open>tok\<close> is the text that
  \<^verbatim>\<open>operator<<\<close> writes for a symbol. \<^verbatim>\<open>relatives\<close> is passed by value, so a callee never
  changes its caller's vector, while \<^verbatim>\<open>lines\<close> is shared and comes back changed. The loop
  carries the locals \<^verbatim>\<open>first\<close> and \<^verbatim>\<open>children\<close> (\<open>cnt\<close>) and \<open>n\<close> is
  \<^verbatim>\<open>node->children.size()\<close>.
\<close>

fun partial ::
    "('e \<Rightarrow> string) \<Rightarrow> ('e, 'v) node \<Rightarrow> 'e \<Rightarrow> nat list \<Rightarrow> string list \<Rightarrow> string list"
  and partial_loop ::
    "('e \<Rightarrow> string) \<Rightarrow> nat \<Rightarrow> nat \<Rightarrow> ('e \<times> ('e, 'v) node) list \<Rightarrow> bool \<Rightarrow> nat \<Rightarrow> nat list
       \<Rightarrow> string list \<Rightarrow> string list"
where
  "partial tok (Node x kids) key relatives lines =
     (let token = tok key;
          lines1 = (if x \<noteq> None then append_back lines (''('' @ token @ '')'')
                    else append_back lines token)
      in if kids = [] then lines1
         else
           (let anchor = back_size lines1;
                relatives1 = (if length kids > 1 then relatives @ [anchor] else relatives)
            in partial_loop tok anchor (length kids) kids True 0 relatives1 lines1))"
| "partial_loop tok anchor n [] first cnt relatives lines = lines"
| "partial_loop tok anchor n ((c, child) # rest) first cnt relatives lines =
     (let cnt1 = cnt + 1 in
      if first then
        partial_loop tok anchor n rest False cnt1 relatives
          (partial tok child c relatives (append_back lines ''-''))
      else
        (let relatives1 = (if cnt1 = n then butlast relatives else relatives);
             prefix = bar_prefix anchor relatives1
         in partial_loop tok anchor n rest False cnt1 relatives1
              (partial tok child c relatives1
                 (append_back (lines @ [[]]) (prefix @ ''`-'')))))"

text \<open>The loop of \<^verbatim>\<open>to_string\<close> over the children of the root.\<close>

fun top_loop ::
  "('e \<Rightarrow> string) \<Rightarrow> ('e \<times> ('e, 'v) node) list \<Rightarrow> string list \<Rightarrow> string list" where
  "top_loop tok [] lines = lines"
| "top_loop tok ((key, node) # rest) lines =
     top_loop tok rest (partial tok node key [] (lines @ [[]]))"

text \<open>Every line followed by a newline, and the last newline taken off again. The size
  that \<^verbatim>\<open>to_string\<close> computes is only a hint for \<^verbatim>\<open>reserve\<close>.\<close>

definition join_lines :: "string list \<Rightarrow> string" where
  "join_lines lines = butlast (concat (map (\<lambda>line. line @ [CHR 0x0A]) lines))"

definition to_string :: "('e \<Rightarrow> string) \<Rightarrow> ('e, 'v) trie \<Rightarrow> string" where
  "to_string tok trie =
     (if children trie = [] then [] else join_lines (top_loop tok (children trie) []))"

text \<open>\<^verbatim>\<open>operator<<\<close> for a \<^verbatim>\<open>char\<close> writes that character.\<close>

definition char_token :: "char \<Rightarrow> string" where
  "char_token c = [c]"

section \<open>Notions used to state the properties\<close>

subsection \<open>Structural minimality\<close>

text \<open>
  A node is meaningful when it carries a value or has a child. A trie is minimal when
  every node below the root is meaningful.
\<close>

fun meaningful :: "('e, 'v) node \<Rightarrow> bool" where
  "meaningful (Node x kids) = (\<not> (x = None \<and> kids = []))"

fun minimal :: "('e, 'v) trie \<Rightarrow> bool"
  and minimal_kids :: "('e \<times> ('e, 'v) node) list \<Rightarrow> bool" where
  "minimal (Node x kids) = minimal_kids kids"
| "minimal_kids [] = True"
| "minimal_kids ((c, child) # rest) = (meaningful child \<and> minimal child \<and> minimal_kids rest)"

subsection \<open>Key order\<close>

text \<open>
  A \<^verbatim>\<open>std::map\<close> iterates in strictly increasing key order. A trie is ordered when the
  children of every node are listed so.
\<close>

fun ordered :: "('e::linorder, 'v) node \<Rightarrow> bool"
  and ordered_kids :: "('e \<times> ('e, 'v) node) list \<Rightarrow> bool" where
  "ordered (Node x kids) = (sorted_wrt (<) (map fst kids) \<and> ordered_kids kids)"
| "ordered_kids [] = True"
| "ordered_kids ((c, child) # rest) = (ordered child \<and> ordered_kids rest)"

subsection \<open>The rendering by the structure of the trie\<close>

text \<open>
  The rows of a subtree, without a stack of columns. \<open>glue head pad rows\<close> puts \<open>head\<close> in
  front of the first row and \<open>pad\<close> in front of every other row. A node writes its label;
  its first child continues the row after a dash and every other child starts a row with
  the connector at the column where the label ends, the anchor. The rows below the own
  row of a child carry, at the anchor of the parent, a bar when further children of the
  parent follow that child and a blank when the child is the last one. The bars of the
  nodes further up are put in front by those nodes in the same way.
\<close>

fun glue :: "string \<Rightarrow> string \<Rightarrow> string list \<Rightarrow> string list" where
  "glue head pad [] = []"
| "glue head pad (r # rs) = (head @ r) # map ((@) pad) rs"

fun draw :: "('e \<Rightarrow> string) \<Rightarrow> ('e, 'v) node \<Rightarrow> 'e \<Rightarrow> string list"
  and branches :: "('e \<Rightarrow> string) \<Rightarrow> ('e \<times> ('e, 'v) node) list \<Rightarrow> string list"
  and later :: "('e \<Rightarrow> string) \<Rightarrow> ('e \<times> ('e, 'v) node) list \<Rightarrow> string list"
where
  "draw tok (Node x kids) key =
     (let label = (if x \<noteq> None then ''('' @ tok key @ '')'' else tok key)
      in if kids = [] then [label]
         else glue label (replicate (length label) CHR '' '') (branches tok kids))"
| "branches tok [] = []"
| "branches tok ((c, child) # rest) =
     glue ''-'' (if rest = [] then '' '' else ''|'') (draw tok child c) @ later tok rest"
| "later tok [] = []"
| "later tok ((c, child) # rest) =
     glue ''`-'' (if rest = [] then ''  '' else ''| '') (draw tok child c) @ later tok rest"

definition draw_trie :: "('e \<Rightarrow> string) \<Rightarrow> ('e, 'v) trie \<Rightarrow> string" where
  "draw_trie tok trie =
     join_lines (concat (map (\<lambda>(key, node). draw tok node key) (children trie)))"

subsection \<open>The renderer as the specification words it\<close>

text \<open>
  The specification pops the anchor of a node with several children off the stack of
  open branch columns after the last child is rendered. \<open>partial_spec\<close> is \<open>partial\<close>
  with the pop at that place: the last child is still rendered with the anchor on the
  stack. It is here for comparison with the renderer of the source only.
\<close>

fun partial_spec ::
    "('e \<Rightarrow> string) \<Rightarrow> ('e, 'v) node \<Rightarrow> 'e \<Rightarrow> nat list \<Rightarrow> string list \<Rightarrow> string list"
  and partial_loop_spec ::
    "('e \<Rightarrow> string) \<Rightarrow> nat \<Rightarrow> nat \<Rightarrow> ('e \<times> ('e, 'v) node) list \<Rightarrow> bool \<Rightarrow> nat \<Rightarrow> nat list
       \<Rightarrow> string list \<Rightarrow> string list"
where
  "partial_spec tok (Node x kids) key relatives lines =
     (let token = tok key;
          lines1 = (if x \<noteq> None then append_back lines (''('' @ token @ '')'')
                    else append_back lines token)
      in if kids = [] then lines1
         else
           (let anchor = back_size lines1;
                relatives1 = (if length kids > 1 then relatives @ [anchor] else relatives)
            in partial_loop_spec tok anchor (length kids) kids True 0 relatives1 lines1))"
| "partial_loop_spec tok anchor n [] first cnt relatives lines = lines"
| "partial_loop_spec tok anchor n ((c, child) # rest) first cnt relatives lines =
     (let cnt1 = cnt + 1 in
      if first then
        partial_loop_spec tok anchor n rest False cnt1 relatives
          (partial_spec tok child c relatives (append_back lines ''-''))
      else
        (let prefix = bar_prefix anchor relatives;
             lines1 = partial_spec tok child c relatives
                        (append_back (lines @ [[]]) (prefix @ ''`-''));
             relatives1 = (if cnt1 = n then butlast relatives else relatives)
         in partial_loop_spec tok anchor n rest False cnt1 relatives1 lines1))"

fun top_loop_spec ::
  "('e \<Rightarrow> string) \<Rightarrow> ('e \<times> ('e, 'v) node) list \<Rightarrow> string list \<Rightarrow> string list" where
  "top_loop_spec tok [] lines = lines"
| "top_loop_spec tok ((key, node) # rest) lines =
     top_loop_spec tok rest (partial_spec tok node key [] (lines @ [[]]))"

definition to_string_spec :: "('e \<Rightarrow> string) \<Rightarrow> ('e, 'v) trie \<Rightarrow> string" where
  "to_string_spec tok trie =
     (if children trie = [] then [] else join_lines (top_loop_spec tok (children trie) []))"

subsection \<open>Example tries\<close>

text \<open>The trie of the test \<^verbatim>\<open>ToStringComplex\<close> of \<^verbatim>\<open>src/dsa/trie_test.cc\<close>, built by its
  twelve calls of \<^verbatim>\<open>insert\<close> in their order.\<close>

definition example_trie :: "(char, int) trie" where
  "example_trie =
     insert_trie (insert_trie (insert_trie (insert_trie (insert_trie (insert_trie
     (insert_trie (insert_trie (insert_trie (insert_trie (insert_trie (insert_trie Trie
       ''test'' 1) ''tester'' 2) ''testing'' 3) ''tess'' 4)
       ''alpha'' 5) ''alphabet'' 6) ''aloe'' 7) ''altar'' 8)
       ''alt'' 9) ''alt'' 10)
       ''world'' 11) ''worm'' 12"

text \<open>A trie whose last branch branches again: the keys \<^verbatim>\<open>ab\<close>, \<^verbatim>\<open>aca\<close> and \<^verbatim>\<open>acb\<close>.\<close>

definition branch_trie :: "(char, int) trie" where
  "branch_trie = insert_trie (insert_trie (insert_trie Trie ''ab'' 1) ''aca'' 2) ''acb'' 3"

text \<open>A trie whose root branch has a first, a middle and a last child, each branching
  again: the keys \<^verbatim>\<open>abx\<close>, \<^verbatim>\<open>aby\<close>, \<^verbatim>\<open>acx\<close>, \<^verbatim>\<open>acy\<close>, \<^verbatim>\<open>adx\<close> and \<^verbatim>\<open>ady\<close>.\<close>

definition bars_trie :: "(char, int) trie" where
  "bars_trie =
     insert_trie (insert_trie (insert_trie (insert_trie (insert_trie (insert_trie Trie
       ''abx'' 1) ''aby'' 2) ''acx'' 3) ''acy'' 4) ''adx'' 5) ''ady'' 6"

section \<open>Facts about the map operations\<close>

lemma map_of_map_set:
  "map_of (map_set c x kids) = (if map_of kids c = None then map_of kids else (map_of kids)(c \<mapsto> x))"
  by (induction kids) (auto simp: fun_eq_iff)

lemma map_of_map_insert:
  "map_of kids c = None \<Longrightarrow> map_of (map_insert c x kids) = (map_of kids)(c \<mapsto> x)"
  by (induction kids) (auto simp: fun_eq_iff split: if_splits)

lemma map_of_map_put [simp]: "map_of (map_put c x kids) = (map_of kids)(c \<mapsto> x)"
  by (cases "map_of kids c") (simp_all add: map_put_def map_of_map_set map_of_map_insert)

lemma map_of_map_erase [simp]: "map_of (map_erase c kids) = (map_of kids)(c := None)"
  by (induction kids) (auto simp: map_erase_def fun_eq_iff)

lemma map_set_same: "map_of kids c = Some x \<Longrightarrow> map_set c x kids = kids"
  by (induction kids) (auto split: if_splits)

lemma map_put_same: "map_of kids c = Some x \<Longrightarrow> map_put c x kids = kids"
  by (simp add: map_put_def map_set_same)

lemma set_map_set: "set (map_set c x kids) \<subseteq> insert (c, x) (set kids)"
  by (induction kids) (auto split: if_splits)

lemma set_map_insert: "set (map_insert c x kids) = insert (c, x) (set kids)"
  by (induction kids) (auto split: if_splits)

lemma set_map_put: "set (map_put c x kids) \<subseteq> insert (c, x) (set kids)"
  using set_map_set[of c x kids] by (auto simp: map_put_def set_map_insert split: option.splits)

lemma set_map_erase: "set (map_erase c kids) \<subseteq> set kids"
  by (auto simp: map_erase_def)

section \<open>Insertion and the queries\<close>

lemma get_insert_trie_same: "get (insert_trie t k v) k = Some v"
proof (induction k arbitrary: t)
  case Nil
  show ?case by (cases t) simp
next
  case (Cons c cs)
  show ?case by (cases t) (simp add: Cons.IH)
qed

lemma match_iff_get: "match t k \<longleftrightarrow> get t k \<noteq> None"
proof (induction k arbitrary: t)
  case Nil
  show ?case by (cases t) simp
next
  case (Cons c cs)
  show ?case by (cases t) (simp add: Cons.IH split: option.split)
qed

lemma match_imp_prefix: "match t k \<Longrightarrow> prefix_trie t k"
proof (induction k arbitrary: t)
  case Nil
  then show ?case by (cases t) simp
next
  case (Cons c cs)
  then show ?case by (cases t) (auto split: option.splits)
qed

lemma prefix_trie_append: "prefix_trie t (p @ q) \<Longrightarrow> prefix_trie t p"
proof (induction p arbitrary: t)
  case Nil
  show ?case by (cases t) simp
next
  case (Cons c cs)
  then show ?case by (cases t) (auto split: option.splits)
qed

lemma prefix_empty_node: "prefix_trie (Node None []) k \<longleftrightarrow> k = []"
  by (cases k) simp_all

lemma prefix_snoc_root: "(\<exists>c. prefix_trie (Node x kids) [c]) \<longleftrightarrow> kids \<noteq> []"
proof (cases kids)
  case Nil
  then show ?thesis by simp
next
  case (Cons p rest)
  obtain c child where "p = (c, child)" by (cases p)
  then have "prefix_trie (Node x kids) [c]" using Cons by (cases child) simp
  then show ?thesis using Cons by blast
qed

text \<open>
  C1. Round trip: after \<^verbatim>\<open>insert(k, v)\<close> on any trie, \<^verbatim>\<open>match(k)\<close> is true and \<^verbatim>\<open>get(k)\<close>
  yields the value \<open>v\<close>.
\<close>

theorem insert_round_trip:
  "match (insert_trie t k v) k \<and> get (insert_trie t k v) k = Some v"
  by (simp add: match_iff_get get_insert_trie_same)

text \<open>
  C8. Empty key: \<^verbatim>\<open>prefix\<close> of the empty key is true for every trie, and after the empty
  key is inserted into the empty trie both \<^verbatim>\<open>match\<close> and \<^verbatim>\<open>prefix\<close> of the empty key are true.
\<close>

theorem empty_key_handling:
  "prefix_trie t [] \<and> match (insert_trie Trie [] v) [] \<and> prefix_trie (insert_trie Trie [] v) []"
  by (cases t) (simp add: Trie_def)

text \<open>
  C10. \<^verbatim>\<open>match(k)\<close> is true exactly when \<^verbatim>\<open>get(k)\<close> returns a value, for every trie and key.
\<close>

theorem match_get_agree: "match t k = (\<exists>v. get t k = Some v)"
  by (simp add: match_iff_get)

section \<open>Erasure\<close>

lemma remove_no_match: "\<not> match t k \<Longrightarrow> remove t k = (False, t)"
proof (induction k arbitrary: t)
  case Nil
  then show ?case by (cases t) simp
next
  case (Cons c cs)
  then show ?case by (cases t) (auto simp: map_set_same split: option.splits)
qed

lemma remove_match_fst: "match t k \<Longrightarrow> fst (remove t k)"
proof (induction k arbitrary: t)
  case Nil
  then show ?case by (cases t) simp
next
  case (Cons c cs)
  show ?case
  proof (cases t)
    case (Node x kids)
    then obtain child where C: "map_of kids c = Some child" "match child cs"
      using Cons.prems by (auto split: option.splits)
    obtain r ch where R: "remove child cs = (r, ch)" by (cases "remove child cs")
    have "r" using Cons.IH[OF C(2)] R by simp
    then show ?thesis using Node C R by simp
  qed
qed

lemma get_empty_node: "get (Node None []) k = None"
  by (cases k) simp_all

lemma get_remove_same: "get (snd (remove t k)) k = None"
proof (induction k arbitrary: t)
  case Nil
  then show ?case by (cases t) simp
next
  case (Cons c cs)
  show ?case 
  proof (cases t)
    case (Node x kids)
    show ?thesis
    proof (cases "map_of kids c")
      case None
      then show ?thesis using Node by simp
    next
      case (Some child)
      obtain r ch where R: "remove child cs = (r, ch)" by (cases "remove child cs")
      have "get ch cs = None" using Cons.IH[of child] R by simp
      then show ?thesis using Node Some R by (simp add: map_of_map_set)
    qed
  qed
qed

lemma get_remove_other: "k' \<noteq> k \<Longrightarrow> get (snd (remove t k)) k' = get t k'"
proof (induction k arbitrary: t k')
  case Nil
  then show ?case by (cases t; cases k') simp_all
next
  case (Cons c cs)
  show ?case
  proof (cases t)
    case (Node x kids)
    show ?thesis
    proof (cases "map_of kids c")
      case None
      then show ?thesis using Node by simp
    next
      case (Some child)
      obtain r ch where R: "remove child cs = (r, ch)" by (cases "remove child cs")
      show ?thesis
      proof (cases k')
        case Nil
        then show ?thesis using Node Some R by simp
      next
        case (Cons c' cs')
        show ?thesis
        proof (cases "c' = c")
          case False
          then show ?thesis using Node Some R Cons by (simp add: map_of_map_set)
        next
          case True
          then have "cs' \<noteq> cs" using Cons Cons.prems by simp
          then have IH: "get ch cs' = get child cs'" using Cons.IH[of cs' child] R by simp
          show ?thesis
          proof (cases "r \<and> val ch = None \<and> children ch = []")
            case True
            then have "ch = Node None []" by (cases ch) simp
            then have "get child cs' = None" using IH get_empty_node by metis
            then show ?thesis using Node Some R Cons True \<open>c' = c\<close> by simp
          next
            case False
            then show ?thesis using Node Some R Cons IH \<open>c' = c\<close> by (auto simp add: map_of_map_set)
          qed
        qed
      qed
    qed
  qed
qed

lemma remove_not_removed: "\<not> fst (remove t k) \<Longrightarrow> snd (remove t k) = t"
  using remove_no_match[of t k] remove_match_fst[of t k] by (cases "match t k") auto

lemma prefix_after_remove:
  "match t k \<Longrightarrow> k \<noteq> [] \<Longrightarrow> prefix_trie (snd (remove t k)) k \<longleftrightarrow> (\<exists>c. prefix_trie t (k @ [c]))"
proof (induction k arbitrary: t)
  case Nil
  then show ?case by simp
next
  case (Cons c cs)
  show ?case
  proof (cases t)
    case (Node x kids)
    then obtain child where C: "map_of kids c = Some child" "match child cs"
      using Cons.prems by (auto split: option.splits)
    obtain r ch where R: "remove child cs = (r, ch)" by (cases "remove child cs")
    have r: "r" using remove_match_fst[OF C(2)] R by simp
    have rhs: "(\<exists>d. prefix_trie t ((c # cs) @ [d])) \<longleftrightarrow> (\<exists>d. prefix_trie child (cs @ [d]))"
      using Node C by simp
    show ?thesis
    proof (cases cs)
      case Nil
      obtain y ckids where ch0: "child = Node y ckids" by (cases child)
      then have ch: "ch = Node None ckids" using R Nil C(2) by (auto split: if_splits)
      have "(\<exists>d. prefix_trie child (cs @ [d])) \<longleftrightarrow> ckids \<noteq> []"
        using Nil ch0 prefix_snoc_root[of y ckids] by simp
      moreover have "prefix_trie (snd (remove t (c # cs))) (c # cs) \<longleftrightarrow> ckids \<noteq> []"
        using Node C R r ch Nil by (simp add: map_of_map_set)
      ultimately show ?thesis using rhs by simp
    next
      case (Cons d ds)
      then have IH: "prefix_trie ch cs \<longleftrightarrow> (\<exists>d. prefix_trie child (cs @ [d]))"
        using Cons.IH[OF C(2)] R by simp
      show ?thesis
      proof (cases "val ch = None \<and> children ch = []")
        case True
        then have "ch = Node None []" by (cases ch) simp
        then have "\<not> prefix_trie ch cs" using Cons prefix_empty_node[of cs] by simp
        moreover have "\<not> prefix_trie (snd (remove t (c # cs))) (c # cs)"
          using Node C R r True by simp
        ultimately show ?thesis using rhs IH by simp
      next
        case False
        then have "prefix_trie (snd (remove t (c # cs))) (c # cs) \<longleftrightarrow> prefix_trie ch cs"
          using Node C R r by (auto simp: map_of_map_set)
        then show ?thesis using rhs IH by simp
      qed
    qed
  qed
qed

text \<open>
  C2. Erase of a key that holds no value returns false and leaves the trie as it was,
  node for node, and so its rendering too. Erase of a key that holds a value returns true,
  and afterwards \<^verbatim>\<open>match\<close> of the key is false and \<^verbatim>\<open>get\<close> of the key is absent.
\<close>

theorem erase_correct:
  "(\<not> match t k \<longrightarrow> erase t k = (False, t) \<and> to_string tok (snd (erase t k)) = to_string tok t) \<and>
   (match t k \<longrightarrow> fst (erase t k) \<and> \<not> match (snd (erase t k)) k \<and> get (snd (erase t k)) k = None)"
  by (simp add: erase_def remove_no_match remove_match_fst match_iff_get get_remove_same)

theorem erase_correct_witness:
  "\<not> match (insert_trie Trie ''hello'' (1::int)) ''hell'' \<and>
   erase (insert_trie Trie ''hello'' (1::int)) ''hell'' = (False, insert_trie Trie ''hello'' 1) \<and>
   match (insert_trie Trie ''hello'' (1::int)) ''hello'' \<and>
   fst (erase (insert_trie Trie ''hello'' (1::int)) ''hello'') \<and>
   \<not> match (snd (erase (insert_trie Trie ''hello'' (1::int)) ''hello'')) ''hello'' \<and>
   get (snd (erase (insert_trie Trie ''hello'' (1::int)) ''hello'')) ''hello'' = None"
proof -
  let ?t = "insert_trie Trie ''hello'' (1::int)"
  have absent: "\<not> match ?t ''hell''" by (simp add: Trie_def map_put_def)
  have present: "match ?t ''hello''" by (simp add: Trie_def map_put_def)
  show ?thesis
    using erase_correct [of ?t "''hell''"] erase_correct [of ?t "''hello''"] absent present
    by blast
qed

text \<open>
  C3. Erase of a key \<open>k\<close> that holds a value leaves every other key \<open>k'\<close> that holds a
  value as it was: \<open>k'\<close> still matches, \<^verbatim>\<open>get\<close> yields the same value and \<open>k'\<close> is still a
  valid prefix. This covers the keys that are proper prefixes of \<open>k\<close> and the keys that
  extend \<open>k\<close>. The key \<open>k\<close> itself no longer matches. When \<open>k'\<close> extends \<open>k\<close>, \<open>k\<close> remains
  a valid prefix. When \<open>k\<close> extends \<open>k'\<close>, the path of \<open>k\<close> stays a valid prefix exactly
  when the node of \<open>k\<close> survives, which it does when it had a child, that is when some
  longer path ran through it; otherwise \<open>k\<close> is no longer a valid prefix.
\<close>

theorem erase_non_interference:
  assumes "match t k" and "match t k'" and "k \<noteq> k'"
  shows "match (snd (erase t k)) k' \<and> get (snd (erase t k)) k' = get t k' \<and>
         prefix_trie (snd (erase t k)) k' \<and> prefix_trie t k' \<and>
         \<not> match (snd (erase t k)) k \<and>
         (strict_prefix k k' \<longrightarrow> prefix_trie (snd (erase t k)) k) \<and>
         (strict_prefix k' k \<longrightarrow>
            prefix_trie (snd (erase t k)) k = (\<exists>c. prefix_trie t (k @ [c])))"
proof -
  have g: "get (snd (erase t k)) k' = get t k'"
    using assms(3) by (simp add: erase_def get_remove_other)
  then have m: "match (snd (erase t k)) k'" using assms(2) by (simp add: match_iff_get)
  then have p: "prefix_trie (snd (erase t k)) k'" by (rule match_imp_prefix)
  have gone: "\<not> match (snd (erase t k)) k"
    by (simp add: erase_def match_iff_get get_remove_same)
  have shorter: "prefix_trie (snd (erase t k)) k" if sp: "strict_prefix k k'"
  proof -
    obtain z zs where "k' = k @ z # zs" using sp by (rule strict_prefixE')
    then show ?thesis using p prefix_trie_append by metis
  qed
  have longer: "prefix_trie (snd (erase t k)) k = (\<exists>c. prefix_trie t (k @ [c]))"
    if "strict_prefix k' k"
  proof -
    have "k \<noteq> []" using that by auto
    then show ?thesis using assms(1) by (simp add: erase_def prefix_after_remove)
  qed
  show ?thesis using g m p gone shorter longer assms(2) by (simp add: match_imp_prefix)
qed

theorem erase_non_interference_witness:
  "match (insert_trie (insert_trie Trie ''hel'' (1::int)) ''hello'' 2) ''hello'' \<and>
   match (insert_trie (insert_trie Trie ''hel'' (1::int)) ''hello'' 2) ''hel'' \<and>
   ''hello'' \<noteq> ''hel'' \<and> strict_prefix ''hel'' ''hello'' \<and>
   match (snd (erase (insert_trie (insert_trie Trie ''hel'' (1::int)) ''hello'' 2) ''hello'')) ''hel'' \<and>
   get (snd (erase (insert_trie (insert_trie Trie ''hel'' (1::int)) ''hello'' 2) ''hello'')) ''hel'' = Some 1 \<and>
   prefix_trie (snd (erase (insert_trie (insert_trie Trie ''hel'' (1::int)) ''hello'' 2) ''hello'')) ''hel'' \<and>
   \<not> prefix_trie (snd (erase (insert_trie (insert_trie Trie ''hel'' (1::int)) ''hello'' 2) ''hello'')) ''hello'' \<and>
   match (snd (erase (insert_trie (insert_trie Trie ''hel'' (1::int)) ''hello'' 2) ''hel'')) ''hello'' \<and>
   \<not> match (snd (erase (insert_trie (insert_trie Trie ''hel'' (1::int)) ''hello'' 2) ''hel'')) ''hel'' \<and>
   prefix_trie (snd (erase (insert_trie (insert_trie Trie ''hel'' (1::int)) ''hello'' 2) ''hel'')) ''hel''"
proof -
  let ?t = "insert_trie (insert_trie Trie ''hel'' (1::int)) ''hello'' 2"
  have h1: "match ?t ''hello''" by (simp add: Trie_def map_put_def)
  have h2: "match ?t ''hel''" by (simp add: Trie_def map_put_def)
  have h3: "''hello'' \<noteq> ''hel''" "''hel'' \<noteq> ''hello''" by simp_all
  have h4: "strict_prefix ''hel'' ''hello''" by (simp add: strict_prefix_def)
  have v: "get ?t ''hel'' = Some 1" by (simp add: Trie_def map_put_def)
  have leaf: "\<not> (\<exists>c. prefix_trie ?t (''hello'' @ [c]))" by (simp add: Trie_def map_put_def)
  show ?thesis
    using erase_non_interference [OF h1 h2 h3(1)] erase_non_interference [OF h2 h1 h3(2)]
      h1 h2 h3 h4 v leaf by simp
qed

section \<open>Indexed access\<close>

lemma subscript_snd: "snd (subscript t k) = get t k"
proof (induction k arbitrary: t)
  case Nil
  show ?case by (cases t) simp
next
  case (Cons c cs)
  show ?case
  proof (cases t)
    case (Node x kids)
    show ?thesis
    proof (cases "map_of kids c")
      case None
      then show ?thesis using Node Cons.IH[of "Node None []"] by (simp add: split_beta get_empty_node)
    next
      case (Some child)
      then show ?thesis using Node Cons.IH[of child] by (simp add: split_beta)
    qed
  qed
qed

lemma subscript_fst_present: "prefix_trie t k \<Longrightarrow> fst (subscript t k) = t"
proof (induction k arbitrary: t)
  case Nil
  show ?case by (cases t) simp
next
  case (Cons c cs)
  show ?case
  proof (cases t)
    case (Node x kids)
    then obtain child where C: "map_of kids c = Some child" "prefix_trie child cs"
      using Cons.prems by (auto split: option.splits)
    then show ?thesis using Node Cons.IH[OF C(2)] by (simp add: split_beta map_put_same)
  qed
qed

text \<open>
  C9. At a key that holds a value, \<^verbatim>\<open>operator[]\<close> leaves the trie as it is and the
  reference it returns points to the stored value: the optional it dereferences is
  populated.
\<close>

theorem subscript_stored_key:
  "match t k \<Longrightarrow> \<exists>v. get t k = Some v \<and> subscript t k = (t, Some v)"
proof -
  assume m: "match t k"
  then obtain v where v: "get t k = Some v" by (auto simp: match_iff_get)
  have "fst (subscript t k) = t" using m by (simp add: match_imp_prefix subscript_fst_present)
  moreover have "snd (subscript t k) = Some v" using v by (simp add: subscript_snd)
  ultimately have "subscript t k = (t, Some v)" by (cases "subscript t k") simp
  then show ?thesis using v by blast
qed

theorem subscript_stored_key_witness:
  "match (insert_trie Trie ''hello'' (42::int)) ''hello'' \<and>
   subscript (insert_trie Trie ''hello'' (42::int)) ''hello'' = (insert_trie Trie ''hello'' 42, Some 42)"
proof -
  let ?t = "insert_trie Trie ''hello'' (42::int)"
  have m: "match ?t ''hello''" by (simp add: Trie_def map_put_def)
  have v: "get ?t ''hello'' = Some 42" by (simp add: Trie_def map_put_def)
  show ?thesis using subscript_stored_key [OF m] m v by auto
qed

section \<open>Structural minimality\<close>

text \<open>\<^verbatim>\<open>insert\<close> and \<^verbatim>\<open>erase\<close> keep a minimal trie minimal.\<close>

lemma minimal_kids_iff:
  "minimal_kids kids \<longleftrightarrow> (\<forall>(c, child) \<in> set kids. meaningful child \<and> minimal child)"
  by (induction kids) auto

lemma minimal_kids_map_put:
  "minimal_kids kids \<Longrightarrow> meaningful x \<Longrightarrow> minimal x \<Longrightarrow> minimal_kids (map_put c x kids)"
  using set_map_put[of c x kids] by (fastforce simp: minimal_kids_iff)

lemma minimal_kids_map_set:
  "minimal_kids kids \<Longrightarrow> meaningful x \<Longrightarrow> minimal x \<Longrightarrow> minimal_kids (map_set c x kids)"
  using set_map_set[of c x kids] by (fastforce simp: minimal_kids_iff)

lemma minimal_kids_map_erase: "minimal_kids kids \<Longrightarrow> minimal_kids (map_erase c kids)"
  using set_map_erase[of c kids] by (fastforce simp: minimal_kids_iff)

lemma minimal_kids_map_of:
  "minimal_kids kids \<Longrightarrow> map_of kids c = Some child \<Longrightarrow> meaningful child \<and> minimal child"
  by (auto simp: minimal_kids_iff dest: map_of_SomeD)

lemma map_put_not_Nil: "map_put c x kids \<noteq> []"
  by (cases kids) (auto simp: map_put_def split: option.splits if_splits)

lemma minimal_Trie: "minimal Trie"
  by (simp add: Trie_def)

lemma insert_trie_minimal:
  "minimal t \<Longrightarrow> minimal (insert_trie t k v) \<and> meaningful (insert_trie t k v)"
proof (induction k arbitrary: t)
  case Nil
  then show ?case by (cases t) simp
next
  case (Cons c cs)
  show ?case
  proof (cases t)
    case (Node x kids)
    define child where "child = (case map_of kids c of None \<Rightarrow> Node None [] | Some ch \<Rightarrow> ch)"
    have mk: "minimal_kids kids" using Cons.prems Node by simp
    have "minimal child"
      using mk minimal_kids_map_of[of kids c] by (auto simp: child_def split: option.splits)
    then have "minimal (insert_trie child cs v) \<and> meaningful (insert_trie child cs v)"
      by (rule Cons.IH)
    then show ?thesis
      using Node mk by (simp add: child_def [symmetric] minimal_kids_map_put map_put_not_Nil)
  qed
qed


lemma remove_minimal: "minimal t \<Longrightarrow> minimal (snd (remove t k))"
proof (induction k arbitrary: t)
  case Nil
  then show ?case by (cases t) simp
next
  case (Cons c cs)
  show ?case
  proof (cases t)
    case (Node x kids)
    have mk: "minimal_kids kids" using Cons.prems Node by simp
    show ?thesis
    proof (cases "map_of kids c")
      case None
      then show ?thesis using Node mk by simp
    next
      case (Some child)
      obtain r ch where R: "remove child cs = (r, ch)" by (cases "remove child cs")
      have mc: "meaningful child" "minimal child" using minimal_kids_map_of[OF mk Some] by simp_all
      have mch: "minimal ch" using Cons.IH[OF mc(2)] R by simp
      show ?thesis
      proof (cases "r \<and> val ch = None \<and> children ch = []")
        case True
        then show ?thesis using Node Some R mk by (simp add: minimal_kids_map_erase)
      next
        case False
        have "meaningful ch"
        proof (cases r)
          case True
          then show ?thesis using False by (cases ch) auto
        next
          case False
          then have "ch = child" using remove_not_removed[of child cs] R by simp
          then show ?thesis using mc by simp
        qed
        then show ?thesis using Node Some R mk mch False by (auto simp: minimal_kids_map_set)
      qed
    qed
  qed
qed

text \<open>
  C4. The claim: after any sequence of operations every node below the root carries a value
  or has a child. \<^verbatim>\<open>operator[]\<close> at a key without a path makes the nodes of the path and
  stores no value, so the last of them has neither a value nor a child. On the empty trie
  and the key \<^verbatim>\<open>a\<close> the result is a root with one empty child, which is not minimal.
\<close>

theorem subscript_breaks_minimality:
  "subscript (Trie :: (char, int) trie) ''a'' = (Node None [(CHR ''a'', Node None [])], None) \<and>
   \<not> minimal (fst (subscript (Trie :: (char, int) trie) ''a''))"
  by (simp add: Trie_def map_put_def)

section \<open>The key order of the children\<close>

text \<open>
  The operations keep the children of every node in strictly increasing key order, as a
  \<^verbatim>\<open>std::map\<close> holds them. On such a list \<open>map_erase\<close> removes the one entry that
  \<^verbatim>\<open>find\<close> returned.
\<close>

lemma ordered_kids_iff: "ordered_kids kids \<longleftrightarrow> (\<forall>(c, child) \<in> set kids. ordered child)"
  by (induction kids) auto

lemma keys_map_set: "map fst (map_set c x kids) = map fst kids"
  by (induction kids) auto

lemma map_of_None_keys: "map_of kids c = None \<longleftrightarrow> c \<notin> set (map fst kids)"
  by (induction kids) auto

lemma sorted_map_insert:
  "sorted_wrt (<) (map fst kids) \<Longrightarrow> c \<notin> set (map fst kids) \<Longrightarrow>
   sorted_wrt (<) (map fst (map_insert c x kids))"
proof (induction kids)
  case Nil
  show ?case by simp
next
  case (Cons p kids)
  obtain k y where p: "p = (k, y)" by (cases p)
  have "set (map_insert c x kids) = insert (c, x) (set kids)" by (rule set_map_insert)
  then have keys: "fst ` set (map_insert c x kids) = insert c (fst ` set kids)" by simp
  show ?case using Cons p keys by (auto simp: not_less)
qed

lemma sorted_map_put:
  "sorted_wrt (<) (map fst kids) \<Longrightarrow> sorted_wrt (<) (map fst (map_put c x kids))"
proof (cases "map_of kids c")
  case None
  assume "sorted_wrt (<) (map fst kids)"
  then show ?thesis
    using None sorted_map_insert[of kids c x] map_of_None_keys[of kids c]
    by (simp add: map_put_def)
next
  case (Some y)
  assume "sorted_wrt (<) (map fst kids)"
  then show ?thesis using Some by (simp add: map_put_def keys_map_set)
qed

lemma sorted_map_erase:
  "sorted_wrt (<) (map fst kids) \<Longrightarrow> sorted_wrt (<) (map fst (map_erase c kids))"
  by (induction kids) (auto simp: map_erase_def)

lemma ordered_kids_map_put:
  "ordered_kids kids \<Longrightarrow> ordered x \<Longrightarrow> ordered_kids (map_put c x kids)"
  using set_map_put[of c x kids] by (fastforce simp: ordered_kids_iff)

lemma ordered_kids_map_set:
  "ordered_kids kids \<Longrightarrow> ordered x \<Longrightarrow> ordered_kids (map_set c x kids)"
  using set_map_set[of c x kids] by (fastforce simp: ordered_kids_iff)

lemma ordered_kids_map_erase: "ordered_kids kids \<Longrightarrow> ordered_kids (map_erase c kids)"
  using set_map_erase[of c kids] by (fastforce simp: ordered_kids_iff)

lemma ordered_kids_map_of: "ordered_kids kids \<Longrightarrow> map_of kids c = Some child \<Longrightarrow> ordered child"
  by (auto simp: ordered_kids_iff dest: map_of_SomeD)

lemma ordered_Trie: "ordered Trie"
  by (simp add: Trie_def)

lemma ordered_insert_trie: "ordered t \<Longrightarrow> ordered (insert_trie t k v)"
proof (induction k arbitrary: t)
  case Nil
  then show ?case by (cases t) simp
next
  case (Cons c cs)
  show ?case
  proof (cases t)
    case (Node x kids)
    define child where "child = (case map_of kids c of None \<Rightarrow> Node None [] | Some ch \<Rightarrow> ch)"
    have ok: "sorted_wrt (<) (map fst kids)" "ordered_kids kids" using Cons.prems Node by simp_all
    have "ordered child"
      using ok ordered_kids_map_of[of kids c] by (auto simp: child_def split: option.splits)
    then have "ordered (insert_trie child cs v)" by (rule Cons.IH)
    then show ?thesis
      using Node ok by (simp add: child_def [symmetric] ordered_kids_map_put sorted_map_put)
  qed
qed

lemma ordered_subscript: "ordered t \<Longrightarrow> ordered (fst (subscript t k))"
proof (induction k arbitrary: t)
  case Nil
  then show ?case by (cases t) simp
next
  case (Cons c cs)
  show ?case
  proof (cases t)
    case (Node x kids)
    define child where "child = (case map_of kids c of None \<Rightarrow> Node None [] | Some ch \<Rightarrow> ch)"
    have ok: "sorted_wrt (<) (map fst kids)" "ordered_kids kids" using Cons.prems Node by simp_all
    have "ordered child"
      using ok ordered_kids_map_of[of kids c] by (auto simp: child_def split: option.splits)
    then have "ordered (fst (subscript child cs))" by (rule Cons.IH)
    then show ?thesis
      using Node ok
      by (simp add: child_def [symmetric] split_beta ordered_kids_map_put sorted_map_put)
  qed
qed

lemma ordered_remove: "ordered t \<Longrightarrow> ordered (snd (remove t k))"
proof (induction k arbitrary: t)
  case Nil
  then show ?case by (cases t) simp
next
  case (Cons c cs)
  show ?case
  proof (cases t)
    case (Node x kids)
    have ok: "sorted_wrt (<) (map fst kids)" "ordered_kids kids" using Cons.prems Node by simp_all
    show ?thesis
    proof (cases "map_of kids c")
      case None
      then show ?thesis using Node ok by simp
    next
      case (Some child)
      obtain r ch where R: "remove child cs = (r, ch)" by (cases "remove child cs")
      have "ordered ch" using Cons.IH[OF ordered_kids_map_of[OF ok(2) Some]] R by simp
      then show ?thesis
        using Node Some R ok
        by (simp add: ordered_kids_map_erase ordered_kids_map_set sorted_map_erase keys_map_set)
    qed
  qed
qed

lemma map_erase_ordered:
  fixes c :: "'e::linorder"
  shows "sorted_wrt (<) (map fst kids) \<Longrightarrow> map_of kids c = Some x \<Longrightarrow>
   map_erase c kids = remove1 (c, x) kids"
proof (induction kids)
  case Nil
  then show ?case by simp
next
  case (Cons p kids)
  obtain k y where p: "p = (k, y)" by (cases p)
  show ?case
  proof (cases "k = c")
    case True
    have "\<forall>q \<in> set kids. c < fst q" using Cons.prems(1) p True by simp
    then have "\<forall>q \<in> set kids. fst q \<noteq> c" by auto
    then have "filter (\<lambda>(k, _). k \<noteq> c) kids = kids" by (induction kids) auto
    then show ?thesis using True p Cons.prems(2) by (simp add: map_erase_def)
  next
    case False
    then show ?thesis using Cons p by (auto simp: map_erase_def)
  qed
qed

section \<open>Copying\<close>

text \<open>If \<^verbatim>\<open>CloneNode\<close> returned a copy of the subtree it is given, \<^verbatim>\<open>clone\<close> would return
  a copy of the whole node.\<close>

lemma map_put_at_end:
  "\<forall>k \<in> set (map fst acc). k < c \<Longrightarrow> map_put c x acc = acc @ [(c, x)]"
proof -
  assume less: "\<forall>k \<in> set (map fst acc). k < c"
  then have absent: "map_of acc c = None" by (auto simp: map_of_None_keys)
  have "map_insert c x acc = acc @ [(c, x)]" using less by (induction acc) auto
  then show ?thesis using absent by (simp add: map_put_def)
qed

lemma fold_map_put_sorted:
  "sorted_wrt (<) (map fst (acc @ kids)) \<Longrightarrow>
   fold (\<lambda>(c, child) copy. map_put c child copy) kids acc = acc @ kids"
proof (induction kids arbitrary: acc)
  case Nil
  show ?case by simp
next
  case (Cons p kids)
  obtain c child where p: "p = (c, child)" by (cases p)
  have "\<forall>k \<in> set (map fst acc). k < c" using Cons.prems p by (auto simp: sorted_wrt_append)
  then have "map_put c child acc = acc @ [(c, child)]" by (rule map_put_at_end)
  moreover have "sorted_wrt (<) (map fst ((acc @ [(c, child)]) @ kids))" using Cons.prems p by simp
  ultimately show ?case using Cons.IH[of "acc @ [(c, child)]"] p by simp
qed

lemma clone_deep_copy:
  "(\<And>n. CloneNode n = n) \<Longrightarrow> sorted_wrt (<) (map fst (children t)) \<Longrightarrow> clone CloneNode t = t"
  using fold_map_put_sorted[of "[]" "children t"] by (cases t) (simp add: clone_def)

text \<open>
  The children of the copy are the results of \<^verbatim>\<open>CloneNode\<close>, whatever it is. No file
  declares it, and the name is not found when the template is instantiated, so neither
  copy operation compiles and the source has no copying behaviour of its own to state.
\<close>

lemma clone_children_by_CloneNode:
  "clone CloneNode (insert_trie Trie ''x'' (1::int)) =
     Node None [(CHR ''x'', CloneNode (Node (Some 1) []))]"
  by (simp add: clone_def Trie_def map_put_def)

lemma copy_assign_self: "copy_assign CloneNode True target other = target"
  by (simp add: copy_assign_def)

section \<open>Rendering\<close>

text \<open>
  C5. The rendering of the worked example: the eight lines, joined by newlines, with no
  newline at the end.
\<close>

theorem to_string_worked_example: "to_string char_token example_trie =
   ''a-l-o-(e)'' @ [CHR 0x0A] @
   ''   `-p-h-(a)-b-e-(t)'' @ [CHR 0x0A] @
   ''   `-(t)-a-(r)'' @ [CHR 0x0A] @
   ''t-e-s-(s)'' @ [CHR 0x0A] @
   ''     `-(t)-e-(r)'' @ [CHR 0x0A] @
   ''          `-i-n-(g)'' @ [CHR 0x0A] @
   ''w-o-r-l-(d)'' @ [CHR 0x0A] @
   ''     `-(m)''"
  by code_simp

lemma append_back_snoc [simp]: "append_back (ls @ [l]) s = ls @ [l @ s]"
proof (induction ls)
  case Nil
  show ?case by simp
next
  case (Cons a ls)
  then show ?case by (cases ls) simp_all
qed

lemma back_size_snoc [simp]: "back_size (ls @ [l]) = length l"
proof (induction ls)
  case Nil
  show ?case by simp
next
  case (Cons a ls)
  then show ?case by (cases ls) simp_all
qed

lemma fold_bars:
  "length (fold (\<lambda>bar p. if bar < anchor then p[bar := CHR ''|''] else p) rels p) = length p \<and>
   (\<forall>i < length p. length p = anchor \<longrightarrow>
      fold (\<lambda>bar p. if bar < anchor then p[bar := CHR ''|''] else p) rels p ! i =
        (if i \<in> set rels then CHR ''|'' else p ! i))"
proof (induction rels arbitrary: p)
  case Nil
  show ?case by simp
next
  case (Cons r rels)
  show ?case using Cons.IH[of "if r < anchor then p[r := CHR ''|''] else p"]
    by (auto simp: nth_list_update)
qed

lemma length_bar_prefix [simp]: "length (bar_prefix anchor rels) = anchor"
  using fold_bars[of anchor rels "replicate anchor CHR '' ''"] by (simp add: bar_prefix_def)

lemma nth_bar_prefix:
  "i < anchor \<Longrightarrow> bar_prefix anchor rels ! i = (if i \<in> set rels then CHR ''|'' else CHR '' '')"
  using fold_bars[of anchor rels "replicate anchor CHR '' ''"] by (simp add: bar_prefix_def)

lemma bar_prefix_own_anchor: "bar_prefix anchor (rels @ [anchor]) = bar_prefix anchor rels"
  by (simp add: bar_prefix_def)

lemma partial_loop_rest:
  "cnt + length mids + 1 = n \<Longrightarrow>
   partial_loop tok anchor n (mids @ [(cl, chl)]) False cnt (rel @ [anchor]) ls =
     partial tok chl cl rel
       (fold (\<lambda>(c, ch) acc. partial tok ch c (rel @ [anchor]) (acc @ [bar_prefix anchor rel @ ''`-'']))
          mids ls @ [bar_prefix anchor rel @ ''`-''])"
proof (induction mids arbitrary: cnt ls)
  case Nil
  then show ?case by (simp add: Let_def)
next
  case (Cons m mids)
  obtain c ch where m: "m = (c, ch)" by (cases m)
  have ne: "cnt + 1 \<noteq> n" using Cons.prems by simp
  have "Suc cnt + length mids + 1 = n" using Cons.prems by simp
  from Cons.IH[OF this] show ?case
    using ne m by (simp add: Let_def bar_prefix_own_anchor)
qed

text \<open>The renderer of the source and the drawing by structure agree.\<close>

lemma glue_map: "map ((@) p) (glue a b rows) = glue (p @ a) (p @ b) rows"
  by (cases rows) simp_all

lemma glue_glue: "glue l pre (glue a b rows) = glue (l @ a) (pre @ b) rows"
  by (cases rows) simp_all

lemma glue_append: "rows \<noteq> [] \<Longrightarrow> glue l pre (rows @ more) = glue l pre rows @ map ((@) pre) more"
  by (cases rows) simp_all

lemma glue_Nil_Nil [simp]: "glue [] [] rows = rows"
  by (cases rows) (simp_all add: map_idI)

lemma glue_not_Nil: "rows \<noteq> [] \<Longrightarrow> glue a b rows \<noteq> []"
  by (cases rows) simp_all

lemma draw_not_Nil:
  fixes node :: "('e, 'v) node" and kids :: "('e \<times> ('e, 'v) node) list"
  shows "draw tok node key \<noteq> []"
    and "kids \<noteq> [] \<longrightarrow> branches tok kids \<noteq> []"
    and "kids \<noteq> [] \<longrightarrow> later tok kids \<noteq> []"
proof (induction tok node key and tok kids and tok kids rule: draw_branches_later.induct)
  case (1 tok x kids key)
  then show ?case by (simp add: Let_def glue_not_Nil)
next
  case (2 tok)
  show ?case by simp
next
  case (3 tok c child rest)
  then show ?case by (simp add: glue_not_Nil)
next
  case (4 tok)
  show ?case by simp
next
  case (5 tok c child rest)
  then show ?case by (simp add: glue_not_Nil)
qed

lemma bar_prefix_extend:
  assumes "\<forall>r \<in> set rel. r < n"
  shows "bar_prefix (n + w) rel = bar_prefix n rel @ replicate w CHR '' ''"
proof (rule nth_equalityI)
  show "length (bar_prefix (n + w) rel) = length (bar_prefix n rel @ replicate w CHR '' '')"
    by simp
next
  fix i assume "i < length (bar_prefix (n + w) rel)"
  then have i: "i < n + w" by simp
  show "bar_prefix (n + w) rel ! i = (bar_prefix n rel @ replicate w CHR '' '') ! i"
    using i assms by (auto simp: nth_bar_prefix nth_append)
qed

lemma bar_prefix_open:
  assumes "\<forall>r \<in> set rel. r < a"
  shows "bar_prefix (a + Suc w) (rel @ [a]) = bar_prefix a rel @ CHR ''|'' # replicate w CHR '' ''"
proof (rule nth_equalityI)
  show "length (bar_prefix (a + Suc w) (rel @ [a])) =
        length (bar_prefix a rel @ CHR ''|'' # replicate w CHR '' '')"
    by simp
next
  fix i assume "i < length (bar_prefix (a + Suc w) (rel @ [a]))"
  then have i: "i < a + Suc w" by simp
  show "bar_prefix (a + Suc w) (rel @ [a]) ! i =
        (bar_prefix a rel @ CHR ''|'' # replicate w CHR '' '') ! i"
    using i assms by (auto simp: nth_bar_prefix nth_append nth_Cons')
qed

lemma partial_draw:
  fixes node :: "('e, 'v) node" and kids :: "('e \<times> ('e, 'v) node) list"
  shows "\<forall>ls l. lines = ls @ [l] \<longrightarrow> (\<forall>r \<in> set relatives. r < length l) \<longrightarrow>
           partial tok node key relatives lines =
             ls @ glue l (bar_prefix (length l) relatives) (draw tok node key)"
    and "\<forall>rel. (\<forall>r \<in> set rel. r < anchor) \<longrightarrow> cnt + length kids = n \<longrightarrow>
           relatives = (if 1 < n then rel @ [anchor] else rel) \<longrightarrow>
           (if first
            then cnt = 0 \<longrightarrow> kids \<noteq> [] \<longrightarrow>
                 (\<forall>ls l1. lines = ls @ [l1] \<longrightarrow> length l1 = anchor \<longrightarrow>
                    partial_loop tok anchor n kids first cnt relatives lines =
                      ls @ glue l1 (bar_prefix anchor rel) (branches tok kids))
            else 0 < cnt \<longrightarrow>
                 partial_loop tok anchor n kids first cnt relatives lines =
                   lines @ map ((@) (bar_prefix anchor rel)) (later tok kids))"
proof (induction tok node key relatives lines and tok anchor n kids first cnt relatives lines
        rule: partial_partial_loop.induct)
  case (1 tok x kids key relatives lines)
  show ?case
  proof (intro allI impI)
    fix ls l
    assume L: "lines = ls @ [l]" and wf: "\<forall>r \<in> set relatives. r < length l"
    define label where "label = (if x \<noteq> None then ''('' @ tok key @ '')'' else tok key)"
    define lines1 where "lines1 = ls @ [l @ label]"
    have l1: "(if x \<noteq> None then append_back lines (''('' @ tok key @ '')'')
               else append_back lines (tok key)) = lines1"
      by (simp add: L lines1_def label_def)
    show "partial tok (Node x kids) key relatives lines =
            ls @ glue l (bar_prefix (length l) relatives) (draw tok (Node x kids) key)"
    proof (cases "kids = []")
      case True
      then show ?thesis using l1 by (simp add: Let_def lines1_def label_def)
    next
      case False
      define anchor where "anchor = back_size lines1"
      define rel1 where "rel1 = (if 1 < length kids then relatives @ [anchor] else relatives)"
      have an: "anchor = length l + length label" by (simp add: anchor_def lines1_def)
      have wf1: "\<forall>r \<in> set relatives. r < anchor" using wf an by auto
      have Q: "\<forall>rel. (\<forall>r \<in> set rel. r < anchor) \<longrightarrow> 0 + length kids = length kids \<longrightarrow>
           rel1 = (if 1 < length kids then rel @ [anchor] else rel) \<longrightarrow>
           (if True
            then (0::nat) = 0 \<longrightarrow> kids \<noteq> [] \<longrightarrow>
                 (\<forall>ls l1. lines1 = ls @ [l1] \<longrightarrow> length l1 = anchor \<longrightarrow>
                    partial_loop tok anchor (length kids) kids True 0 rel1 lines1 =
                      ls @ glue l1 (bar_prefix anchor rel) (branches tok kids))
            else 0 < (0::nat) \<longrightarrow>
                 partial_loop tok anchor (length kids) kids True 0 rel1 lines1 =
                   lines1 @ map ((@) (bar_prefix anchor rel)) (later tok kids))"
        using "1.IH"[OF refl l1[symmetric] False anchor_def rel1_def] .
      have "partial_loop tok anchor (length kids) kids True 0 rel1 lines1 =
              ls @ glue (l @ label) (bar_prefix anchor relatives) (branches tok kids)"
        using Q[rule_format, of relatives] wf1 False an
        by (simp add: rel1_def lines1_def)
      moreover have "partial tok (Node x kids) key relatives lines =
          partial_loop tok anchor (length kids) kids True 0 rel1 lines1"
        using False l1 by (simp add: Let_def anchor_def rel1_def)
      moreover have "bar_prefix anchor relatives =
          bar_prefix (length l) relatives @ replicate (length label) CHR '' ''"
        using bar_prefix_extend[OF wf] an by simp
      moreover have "draw tok (Node x kids) key =
          glue label (replicate (length label) CHR '' '') (branches tok kids)"
        using False by (simp add: Let_def label_def)
      ultimately show ?thesis
        by (simp only: glue_glue)
    qed
  qed
next
  case (2 tok anchor n first cnt relatives lines)
  show ?case by simp
next
  case (3 tok anchor n c child rest first cnt relatives lines)
  show ?case
  proof (intro allI impI)
    fix rel
    assume wf: "\<forall>r \<in> set rel. r < anchor"
      and count: "cnt + length ((c, child) # rest) = n"
      and stack: "relatives = (if 1 < n then rel @ [anchor] else rel)"
    define pre where "pre = bar_prefix anchor rel"
    show "if first
          then cnt = 0 \<longrightarrow> (c, child) # rest \<noteq> [] \<longrightarrow>
               (\<forall>ls l1. lines = ls @ [l1] \<longrightarrow> length l1 = anchor \<longrightarrow>
                  partial_loop tok anchor n ((c, child) # rest) first cnt relatives lines =
                    ls @ glue l1 (bar_prefix anchor rel) (branches tok ((c, child) # rest)))
          else 0 < cnt \<longrightarrow>
               partial_loop tok anchor n ((c, child) # rest) first cnt relatives lines =
                 lines @ map ((@) (bar_prefix anchor rel)) (later tok ((c, child) # rest))"
    proof (cases first)
      case True
      have "partial_loop tok anchor n ((c, child) # rest) first cnt relatives lines =
              ls @ glue l1 pre (branches tok ((c, child) # rest))"
        if c0: "cnt = 0" and L: "lines = ls @ [l1]" and len: "length l1 = anchor" for ls l1
      proof -
        have n: "n = Suc (length rest)" using count c0 by simp
        define pad where "pad = (if rest = [] then '' '' else ''|'')"
        have wfr: "\<forall>r \<in> set relatives. r < length (l1 @ ''-'')"
          using wf stack len by auto
        have padded: "bar_prefix (length (l1 @ ''-'')) relatives = pre @ pad"
        proof (cases "rest = []")
          case True
          then show ?thesis
            using stack n bar_prefix_extend[OF wf, of 1] len by (simp add: pre_def pad_def)
        next
          case False
          then show ?thesis
            using stack n bar_prefix_open[OF wf, of 0] len by (simp add: pre_def pad_def)
        qed
        have child_rows: "partial tok child c relatives (append_back lines ''-'') =
            ls @ glue (l1 @ ''-'') (pre @ pad) (draw tok child c)"
          using "3.IH"(1)[OF refl True, rule_format, of ls "l1 @ ''-''"] L wfr padded by simp
        have rest_rows: "partial_loop tok anchor n rest False (cnt + 1) relatives
              (partial tok child c relatives (append_back lines ''-'')) =
            partial tok child c relatives (append_back lines ''-'') @
              map ((@) pre) (later tok rest)"
          using "3.IH"(2)[OF refl True, rule_format, of rel] wf stack n c0 by (simp add: pre_def)
        have "partial_loop tok anchor n ((c, child) # rest) first cnt relatives lines =
            ls @ glue (l1 @ ''-'') (pre @ pad) (draw tok child c) @ map ((@) pre) (later tok rest)"
          using True child_rows rest_rows by simp
        also have "\<dots> = ls @ glue l1 pre (glue ''-'' pad (draw tok child c) @ later tok rest)"
          using draw_not_Nil(1)[of tok child c]
          by (simp add: glue_append glue_not_Nil glue_glue)
        finally show ?thesis by (simp add: pad_def)
      qed
      then show ?thesis using True by (simp add: pre_def)
    next
      case False
      have "partial_loop tok anchor n ((c, child) # rest) first cnt relatives lines =
              lines @ map ((@) pre) (later tok ((c, child) # rest))"
        if pos: "0 < cnt"
      proof -
        have n: "n = cnt + Suc (length rest)" "1 < n" using count pos by simp_all
        have st: "relatives = rel @ [anchor]" using stack n by simp
        define rel1 where "rel1 = (if cnt + 1 = n then butlast relatives else relatives)"
        define pad where "pad = (if rest = [] then ''  '' else ''| '')"
        have last_iff: "cnt + 1 = n \<longleftrightarrow> rest = []" using n by auto
        have r1: "rel1 = (if rest = [] then rel else rel @ [anchor])"
          using st last_iff by (simp add: rel1_def)
        have own: "bar_prefix anchor rel1 = pre"
          using r1 by (simp add: pre_def bar_prefix_own_anchor)
        have wfr: "\<forall>r \<in> set rel1. r < length (pre @ ''`-'')"
          using wf r1 by (auto simp: pre_def)
        have padded: "bar_prefix (length (pre @ ''`-'')) rel1 = pre @ pad"
        proof (cases "rest = []")
          case True
          then show ?thesis
            using r1 bar_prefix_extend[OF wf, of 2] by (simp add: pre_def pad_def numeral_2_eq_2)
        next
          case False
          then show ?thesis
            using r1 bar_prefix_open[OF wf, of 1] by (simp add: pre_def pad_def)
        qed
        have child_rows: "partial tok child c rel1 (lines @ [pre @ ''`-'']) =
            lines @ glue (pre @ ''`-'') (pre @ pad) (draw tok child c)"
          using "3.IH"(3)[OF refl False rel1_def refl, rule_format, of lines "pre @ ''`-''"]
            wfr padded own by simp
        have rest_rows: "partial_loop tok anchor n rest False (cnt + 1) rel1
              (partial tok child c rel1 (lines @ [pre @ ''`-''])) =
            partial tok child c rel1 (lines @ [pre @ ''`-'']) @ map ((@) pre) (later tok rest)"
        proof (cases "rest = []")
          case True
          then show ?thesis by simp
        next
          case False
          then have "rel1 = (if 1 < n then rel @ [anchor] else rel)" using r1 n by simp
          then show ?thesis
            using "3.IH"(4)[OF refl \<open>\<not> first\<close> rel1_def refl, rule_format, of rel] wf n own
            by (simp add: pre_def)
        qed
        have "partial_loop tok anchor n ((c, child) # rest) first cnt relatives lines =
            partial_loop tok anchor n rest False (cnt + 1) rel1
              (partial tok child c rel1 (lines @ [bar_prefix anchor rel1 @ ''`-'']))"
          using \<open>\<not> first\<close> by (simp add: Let_def rel1_def)
        also have "\<dots> = lines @ glue (pre @ ''`-'') (pre @ pad) (draw tok child c) @
              map ((@) pre) (later tok rest)"
          using rest_rows child_rows by (simp add: own)
        also have "\<dots> = lines @ map ((@) pre) (glue ''`-'' pad (draw tok child c) @ later tok rest)"
          by (simp add: glue_map)
        finally show ?thesis by (simp add: pad_def)
      qed
      then show ?thesis using False by (simp add: pre_def)
    qed
  qed
qed

lemma top_loop_draw:
  "top_loop tok kids lines = lines @ concat (map (\<lambda>(key, node). draw tok node key) kids)"
proof (induction kids arbitrary: lines)
  case Nil
  show ?case by simp
next
  case (Cons p kids)
  obtain key node where p: "p = (key, node)" by (cases p)
  have "partial tok node key [] (lines @ [[]]) = lines @ draw tok node key"
    using partial_draw(1)[of "lines @ [[]]" "[]" tok node key, rule_format, of lines "[]"]
    by (simp add: bar_prefix_def)
  then show ?case using Cons.IH p by simp
qed

lemma to_string_draw: "to_string tok t = draw_trie tok t"
  by (simp add: to_string_def draw_trie_def top_loop_draw join_lines_def)

lemma later_split:
  "\<exists>before. later tok (pre @ (c, child) # post) =
     before @ glue ''`-'' (if post = [] then ''  '' else ''| '') (draw tok child c) @ later tok post"
proof (induction pre)
  case Nil
  show ?case by simp
next
  case (Cons p pre)
  obtain c1 ch1 where p: "p = (c1, ch1)" by (cases p)
  from Cons obtain before where
    "later tok (pre @ (c, child) # post) =
       before @ glue ''`-'' (if post = [] then ''  '' else ''| '') (draw tok child c) @ later tok post"
    by blast
  then have "later tok ((p # pre) @ (c, child) # post) =
      (glue ''`-'' ''| '' (draw tok ch1 c1) @ before) @
        glue ''`-'' (if post = [] then ''  '' else ''| '') (draw tok child c) @ later tok post"
    using p by simp
  then show ?case by blast
qed

lemma draw_child_rows:
  assumes "kids = pre @ (c, child) # post"
  shows "\<exists>before own after.
     draw tok (Node x kids) key =
       before @ own #
         map ((@) (replicate (length (if x \<noteq> None then ''('' @ tok key @ '')'' else tok key)) CHR '' '' @
                   (if post = [] then '' '' else ''|'') @ (if pre = [] then [] else '' '')))
           (tl (draw tok child c)) @ after"
proof -
  define label where "label = (if x \<noteq> None then ''('' @ tok key @ '')'' else tok key)"
  define ind where "ind = replicate (length label) CHR '' ''"
  define pad where "pad = ind @ (if post = [] then '' '' else ''|'') @ (if pre = [] then [] else '' '')"
  obtain r0 rs where D: "draw tok child c = r0 # rs"
    using draw_not_Nil(1)[of tok child c] by (cases "draw tok child c") auto
  have kne: "kids \<noteq> []" using assms by simp
  have dr: "draw tok (Node x kids) key = glue label ind (branches tok kids)"
    using kne by (simp add: Let_def label_def ind_def)
  have "\<exists>before own after. draw tok (Node x kids) key =
          before @ own # map ((@) pad) (tl (draw tok child c)) @ after"
  proof (cases pre)
    case Nil
    then have "branches tok kids =
        (''-'' @ r0) # map ((@) (if post = [] then '' '' else ''|'')) rs @ later tok post"
      using assms D by simp
    then have "draw tok (Node x kids) key =
        [] @ (label @ ''-'' @ r0) # map ((@) pad) (tl (draw tok child c)) @
          map ((@) ind) (later tok post)"
      using dr Nil D by (simp add: pad_def)
    then show ?thesis by (intro exI)
  next
    case (Cons p pre')
    obtain c1 ch1 where p: "p = (c1, ch1)" by (cases p)
    obtain q0 qs where D1: "draw tok ch1 c1 = q0 # qs"
      using draw_not_Nil(1)[of tok ch1 c1] by (cases "draw tok ch1 c1") auto
    obtain mid where L: "later tok (pre' @ (c, child) # post) =
        mid @ glue ''`-'' (if post = [] then ''  '' else ''| '') (draw tok child c) @ later tok post"
      using later_split[of tok pre' c child post] by blast
    have "branches tok kids =
        (''-'' @ q0) # map ((@) ''|'') qs @ mid @
          (''`-'' @ r0) # map ((@) (if post = [] then ''  '' else ''| '')) rs @ later tok post"
      using assms Cons p D D1 L by simp
    then have "draw tok (Node x kids) key =
        ((label @ ''-'' @ q0) # map ((@) ind) (map ((@) ''|'') qs @ mid)) @
          (ind @ ''`-'' @ r0) # map ((@) pad) (tl (draw tok child c)) @
          map ((@) ind) (later tok post)"
      using dr Cons D by (simp add: pad_def)
    then show ?thesis by (intro exI)
  qed
  then show ?thesis by (simp only: pad_def ind_def label_def)
qed

lemma partial_single_child:
  "partial tok (Node x [(c, child)]) key rel lines =
     partial tok child c rel
       (append_back
          (append_back lines (if x \<noteq> None then ''('' @ tok key @ '')'' else tok key)) ''-'')"
  by (simp add: Let_def)

lemma partial_multi_child:
  fixes kids :: "('e \<times> ('e, 'v) node) list"
  assumes "kids = (c1, ch1) # mids @ [(cl, chl)]"
  shows "partial tok (Node x kids) key rel lines =
     (let header = append_back lines (if x \<noteq> None then ''('' @ tok key @ '')'' else tok key);
          anchor = back_size header;
          bars = bar_prefix anchor rel;
          first_done = partial tok ch1 c1 (rel @ [anchor]) (append_back header ''-'');
          mids_done = fold (\<lambda>(c, ch) acc.
              partial tok ch c (rel @ [anchor]) (acc @ [bars @ ''`-''])) mids first_done
      in partial tok chl cl rel (mids_done @ [bars @ ''`-'']))"
proof -
  define header where
    "header = append_back lines (if x \<noteq> None then ''('' @ tok key @ '')'' else tok key)"
  define anchor where "anchor = back_size header"
  define bars where "bars = bar_prefix anchor rel"
  define first_done where
    "first_done = partial tok ch1 c1 (rel @ [anchor]) (append_back header ''-'')"
  define mids_done where
    "mids_done = fold (\<lambda>(c, ch) acc.
        partial tok ch c (rel @ [anchor]) (acc @ [bars @ ''`-''])) mids first_done"
  have hd: "(if x \<noteq> None then append_back lines (''('' @ tok key @ '')'')
             else append_back lines (tok key)) = header"
    by (simp add: header_def)
  have len: "1 < length kids" "kids \<noteq> []" using assms by simp_all
  have "partial tok (Node x kids) key rel lines =
      partial_loop tok anchor (length kids) kids True 0 (rel @ [anchor]) header"
    using len hd by (simp add: Let_def anchor_def)
  also have "\<dots> = partial_loop tok anchor (length kids) (mids @ [(cl, chl)]) False 1
      (rel @ [anchor]) first_done"
    using assms by (simp add: first_done_def)
  also have "\<dots> = partial tok chl cl rel (mids_done @ [bars @ ''`-''])"
    using partial_loop_rest[of 1 mids "length kids" tok anchor cl chl rel first_done] assms
    by (simp add: mids_done_def bars_def)
  finally show ?thesis
    unfolding Let_def
    by (simp only: header_def [symmetric] anchor_def [symmetric] bars_def [symmetric]
          first_done_def [symmetric] mids_done_def [symmetric])
qed

text \<open>
  The claim C6 as it is stated has the anchor popped only after the last child is
  rendered. For the keys \<^verbatim>\<open>ab\<close>, \<^verbatim>\<open>aca\<close> and \<^verbatim>\<open>acb\<close> the third row lies inside the last
  child of the node of \<^verbatim>\<open>a\<close>. The source renders it without a bar at column 1, the
  anchor of that node; with the pop after the last child the row has the bar.
\<close>

theorem pop_after_last_child_counterexample:
  "to_string char_token branch_trie =
     ''a-(b)'' @ [CHR 0x0A] @ '' `-c-(a)'' @ [CHR 0x0A] @ ''    `-(b)'' \<and>
   to_string_spec char_token branch_trie =
     ''a-(b)'' @ [CHR 0x0A] @ '' `-c-(a)'' @ [CHR 0x0A] @ '' |  `-(b)'' \<and>
   to_string char_token branch_trie \<noteq> to_string_spec char_token branch_trie"
  by code_simp

text \<open>
  C6, amended. For a node with several children the anchor is on the stack of open
  branch columns while the first and the middle children are rendered, and it is popped
  when the row of the last child is started, before that child is rendered; a node with
  one child hands its stack on unchanged. The row of every child but the first starts
  with as many columns as the anchor says, with a bar at each still-open column of an
  ancestor left of the anchor and blanks elsewhere, followed by the connector.
  Consequently the rows rendered inside the subtree of a child show a bar at the anchor
  of its parent exactly when the child is not the last child of the parent: the whole
  rendering is the drawing by structure, for every trie, and every call of the renderer
  whose stack lies left of its row writes the bars of its stack in front of the drawing
  of its subtree.
\<close>

theorem open_branch_bookkeeping:
  fixes t :: "('e, 'v) trie" and node child :: "('e, 'v) node"
    and kids :: "('e \<times> ('e, 'v) node) list"
  shows
    "to_string tok t = draw_trie tok t \<and>
     ((\<forall>r \<in> set rel. r < length l) \<longrightarrow>
        partial tok node key rel (ls @ [l]) =
          ls @ glue l (bar_prefix (length l) rel) (draw tok node key)) \<and>
     partial tok (Node x [(c, child)]) key rel lines =
       partial tok child c rel
         (append_back
            (append_back lines (if x \<noteq> None then ''('' @ tok key @ '')'' else tok key)) ''-'') \<and>
     (kids = (c1, ch1) # mids @ [(cl, chl)] \<longrightarrow>
        partial tok (Node x kids) key rel lines =
          (let header = append_back lines (if x \<noteq> None then ''('' @ tok key @ '')'' else tok key);
               anchor = back_size header;
               bars = bar_prefix anchor rel;
               first_done = partial tok ch1 c1 (rel @ [anchor]) (append_back header ''-'');
               mids_done = fold (\<lambda>(c, ch) acc.
                   partial tok ch c (rel @ [anchor]) (acc @ [bars @ ''`-''])) mids first_done
           in partial tok chl cl rel (mids_done @ [bars @ ''`-'']))) \<and>
     length (bar_prefix n rel) = n \<and>
     (\<forall>i<n. bar_prefix n rel ! i = (if i \<in> set rel then CHR ''|'' else CHR '' '')) \<and>
     (kids = pre @ (c, child) # post \<longrightarrow>
        (\<exists>before own after.
           draw tok (Node x kids) key =
             before @ own #
               map ((@) (replicate (length (if x \<noteq> None then ''('' @ tok key @ '')'' else tok key))
                          CHR '' '' @
                         (if post = [] then '' '' else ''|'') @ (if pre = [] then [] else '' '')))
                 (tl (draw tok child c)) @ after))"
proof (intro conjI impI)
  show "to_string tok t = draw_trie tok t" by (rule to_string_draw)
next
  assume "\<forall>r \<in> set rel. r < length l"
  then show "partial tok node key rel (ls @ [l]) =
      ls @ glue l (bar_prefix (length l) rel) (draw tok node key)"
    using partial_draw(1)[of "ls @ [l]" rel tok node key] by simp
next
  show "partial tok (Node x [(c, child)]) key rel lines =
       partial tok child c rel
         (append_back
            (append_back lines (if x \<noteq> None then ''('' @ tok key @ '')'' else tok key)) ''-'')"
    by (rule partial_single_child)
next
  assume "kids = (c1, ch1) # mids @ [(cl, chl)]"
  then show "partial tok (Node x kids) key rel lines =
          (let header = append_back lines (if x \<noteq> None then ''('' @ tok key @ '')'' else tok key);
               anchor = back_size header;
               bars = bar_prefix anchor rel;
               first_done = partial tok ch1 c1 (rel @ [anchor]) (append_back header ''-'');
               mids_done = fold (\<lambda>(c, ch) acc.
                   partial tok ch c (rel @ [anchor]) (acc @ [bars @ ''`-''])) mids first_done
           in partial tok chl cl rel (mids_done @ [bars @ ''`-'']))"
    by (rule partial_multi_child)
next
  show "length (bar_prefix n rel) = n" by simp
next
  show "\<forall>i<n. bar_prefix n rel ! i = (if i \<in> set rel then CHR ''|'' else CHR '' '')"
    by (simp add: nth_bar_prefix)
next
  assume "kids = pre @ (c, child) # post"
  then show "\<exists>before own after.
           draw tok (Node x kids) key =
             before @ own #
               map ((@) (replicate (length (if x \<noteq> None then ''('' @ tok key @ '')'' else tok key))
                          CHR '' '' @
                         (if post = [] then '' '' else ''|'') @ (if pre = [] then [] else '' '')))
                 (tl (draw tok child c)) @ after"
    by (rule draw_child_rows)
qed

theorem open_branch_bookkeeping_witness:
  "to_string char_token bars_trie =
     ''a-b-(x)'' @ [CHR 0x0A] @
     '' | `-(y)'' @ [CHR 0x0A] @
     '' `-c-(x)'' @ [CHR 0x0A] @
     '' |  `-(y)'' @ [CHR 0x0A] @
     '' `-d-(x)'' @ [CHR 0x0A] @
     ''    `-(y)'' \<and>
   partial char_token
     (Node None [(CHR ''x'', Node (Some 1) []), (CHR ''y'', Node (Some (2::int)) [])])
     (CHR ''b'') [1] [''a-''] = [''a-b-(x)'', '' | `-(y)''] \<and>
   partial char_token
     (Node None
        [(CHR ''b'', Node None [(CHR ''x'', Node (Some 1) []), (CHR ''y'', Node (Some 2) [])]),
         (CHR ''c'', Node None [(CHR ''x'', Node (Some 3) []), (CHR ''y'', Node (Some 4) [])]),
         (CHR ''d'', Node None [(CHR ''x'', Node (Some 5) []), (CHR ''y'', Node (Some (6::int)) [])])])
     (CHR ''a'') [] [[]] =
   partial char_token
     (Node None [(CHR ''x'', Node (Some 5) []), (CHR ''y'', Node (Some (6::int)) [])])
     (CHR ''d'') []
     [''a-b-(x)'', '' | `-(y)'', '' `-c-(x)'', '' |  `-(y)'', '' `-''] \<and>
   length (bar_prefix 4 [1, 4]) = 4 \<and>
   bar_prefix 4 [1, 4] ! 1 = CHR ''|'' \<and>
   bar_prefix 4 [1, 4] ! 2 = CHR '' '' \<and>
   (\<exists>before own after.
      draw char_token
        (Node None
           [(CHR ''b'', Node None [(CHR ''x'', Node (Some 1) []), (CHR ''y'', Node (Some 2) [])]),
            (CHR ''c'', Node None [(CHR ''x'', Node (Some 3) []), (CHR ''y'', Node (Some 4) [])]),
            (CHR ''d'', Node None [(CHR ''x'', Node (Some 5) []), (CHR ''y'', Node (Some (6::int)) [])])])
        (CHR ''a'') =
      before @ own #
        map ((@) '' | '')
          (tl (draw char_token
                 (Node None [(CHR ''x'', Node (Some 3) []), (CHR ''y'', Node (Some (4::int)) [])])
                 (CHR ''c''))) @ after)"
proof -
  let ?B = "Node None [(CHR ''x'', Node (Some 1) []), (CHR ''y'', Node (Some (2::int)) [])]"
  let ?C = "Node None [(CHR ''x'', Node (Some 3) []), (CHR ''y'', Node (Some (4::int)) [])]"
  let ?D = "Node None [(CHR ''x'', Node (Some 5) []), (CHR ''y'', Node (Some (6::int)) [])]"
  let ?kids = "[(CHR ''b'', ?B), (CHR ''c'', ?C), (CHR ''d'', ?D)]"
  have drawn: "draw_trie char_token bars_trie =
     ''a-b-(x)'' @ [CHR 0x0A] @
     '' | `-(y)'' @ [CHR 0x0A] @
     '' `-c-(x)'' @ [CHR 0x0A] @
     '' |  `-(y)'' @ [CHR 0x0A] @
     '' `-d-(x)'' @ [CHR 0x0A] @
     ''    `-(y)''"
    by code_simp
  have whole: "to_string char_token bars_trie = draw_trie char_token bars_trie"
    using open_branch_bookkeeping [where t = bars_trie and tok = char_token] by (rule conjunct1)
  have stack: "\<forall>r \<in> set [1::nat]. r < length ''a-''" by simp
  have shape: "?kids = (CHR ''b'', ?B) # [(CHR ''c'', ?C)] @ [(CHR ''d'', ?D)]" by simp
  have place: "?kids = [(CHR ''b'', ?B)] @ (CHR ''c'', ?C) # [(CHR ''d'', ?D)]" by simp
  have sub0: "partial char_token ?B (CHR ''b'') [1] ([] @ [''a-'']) =
      [] @ glue ''a-'' (bar_prefix (length ''a-'') [1]) (draw char_token ?B (CHR ''b''))"
    using open_branch_bookkeeping [where tok = char_token and rel = "[1]" and l = "''a-''"
      and ls = "[]" and node = ?B and key = "CHR ''b''", THEN conjunct2, THEN conjunct1] stack
    by (rule mp)
  have sub: "partial char_token ?B (CHR ''b'') [1] [''a-''] = [''a-b-(x)'', '' | `-(y)'']"
    using sub0 by (simp add: char_token_def bar_prefix_def)
  have handed0: "partial char_token (Node None ?kids) (CHR ''a'') [] [[]] =
      (let header = append_back [[]] (if (None :: int option) \<noteq> None
                      then ''('' @ char_token (CHR ''a'') @ '')'' else char_token (CHR ''a''));
           anchor = back_size header;
           bars = bar_prefix anchor [];
           first_done = partial char_token ?B (CHR ''b'') ([] @ [anchor]) (append_back header ''-'');
           mids_done = fold (\<lambda>(c, ch) acc.
               partial char_token ch c ([] @ [anchor]) (acc @ [bars @ ''`-'']))
               [(CHR ''c'', ?C)] first_done
       in partial char_token ?D (CHR ''d'') [] (mids_done @ [bars @ ''`-'']))"
    using open_branch_bookkeeping [where tok = char_token and rel = "[]" and x = None
      and kids = ?kids and ?c1.0 = "CHR ''b''" and ?ch1.0 = ?B and mids = "[(CHR ''c'', ?C)]"
      and cl = "CHR ''d''" and chl = ?D and key = "CHR ''a''" and lines = "[[]]",
      THEN conjunct2, THEN conjunct2, THEN conjunct2, THEN conjunct1] shape
    by (rule mp)
  have handed: "partial char_token (Node None ?kids) (CHR ''a'') [] [[]] =
      partial char_token ?D (CHR ''d'') []
        [''a-b-(x)'', '' | `-(y)'', '' `-c-(x)'', '' |  `-(y)'', '' `-'']"
    unfolding handed0 by (simp add: Let_def char_token_def bar_prefix_def)
  note bars = open_branch_bookkeeping [where n = 4 and rel = "[1, 4]",
      THEN conjunct2, THEN conjunct2, THEN conjunct2, THEN conjunct2]
  have b0: "length (bar_prefix 4 [1, 4]) = 4" using bars by (rule conjunct1)
  have b1: "bar_prefix 4 [1, 4] ! 1 = CHR ''|''"
    using bars [THEN conjunct2, THEN conjunct1, rule_format, of 1] by simp
  have b2: "bar_prefix 4 [1, 4] ! 2 = CHR '' ''"
    using bars [THEN conjunct2, THEN conjunct1, rule_format, of 2] by simp
  have below0: "\<exists>before own after.
      draw char_token (Node None ?kids) (CHR ''a'') =
        before @ own #
          map ((@) (replicate (length (if (None :: int option) \<noteq> None
                       then ''('' @ char_token (CHR ''a'') @ '')'' else char_token (CHR ''a'')))
                     CHR '' '' @
                    (if [(CHR ''d'', ?D)] = [] then '' '' else ''|'') @
                    (if [(CHR ''b'', ?B)] = [] then [] else '' '')))
            (tl (draw char_token ?C (CHR ''c''))) @ after"
    using open_branch_bookkeeping [where tok = char_token and x = None and kids = ?kids
      and pre = "[(CHR ''b'', ?B)]" and c = "CHR ''c''" and child = ?C
      and post = "[(CHR ''d'', ?D)]" and key = "CHR ''a''",
      THEN conjunct2, THEN conjunct2, THEN conjunct2, THEN conjunct2, THEN conjunct2,
      THEN conjunct2] place
    by (rule mp)
  have pad: "replicate (length (if (None :: int option) \<noteq> None
                       then ''('' @ char_token (CHR ''a'') @ '')'' else char_token (CHR ''a'')))
                     CHR '' '' @
                    (if [(CHR ''d'', ?D)] = [] then '' '' else ''|'') @
                    (if [(CHR ''b'', ?B)] = [] then [] else '' '') = '' | ''"
    by (simp add: char_token_def)
  have below: "\<exists>before own after.
      draw char_token (Node None ?kids) (CHR ''a'') =
        before @ own # map ((@) '' | '') (tl (draw char_token ?C (CHR ''c''))) @ after"
    using below0 unfolding pad .
  show ?thesis
    using drawn whole sub handed b0 b1 b2 below by (intro conjI) simp_all
qed

end
